theory Spec2Isabelle
  imports Main "HOL-Library.Word"
begin

text \<open>
  The text-to-markup conversion of \<open>server.js\<close>: \<open>convertTextToHTML\<close> with its helpers
  \<open>isHeader\<close>, \<open>getHeaderLevel\<close>, \<open>isListItem\<close> and \<open>escapeHtml\<close> (lines 819 to 951),
  as functions on strings, with the loop's three variables \<open>html\<close>, \<open>inList\<close> and
  \<open>inParagraph\<close> as a record that every iteration takes and returns.
\<close>

section \<open>JavaScript strings\<close>

text \<open>
  A JavaScript string is a sequence of UTF-16 code units; \<open>length\<close>, \<open>trim\<close>, \<open>split\<close>
  and the regular expressions of \<open>server.js\<close> (none has the \<open>u\<close> flag) all work on
  code units. ASCII literals are written \<open>js ''...''\<close>.
\<close>

type_synonym jschar = "16 word"
type_synonym jsstring = "jschar list"

definition js :: "string \<Rightarrow> jsstring" where
  "js s = map of_char s"

definition LF :: jschar where
  "LF = 0x0A"

text \<open>
  The characters that \<open>String.prototype.trim\<close> removes and that \<open>\s\<close> matches: the
  WhiteSpace and LineTerminator productions of ECMAScript (TAB, LF, VT, FF, CR, SP, NBSP,
  U+1680, U+2000 to U+200A, U+2028, U+2029, U+202F, U+205F, U+3000, U+FEFF).
\<close>

definition isSpace :: "jschar \<Rightarrow> bool" where
  "isSpace c \<longleftrightarrow>
     c \<in> {0x09, 0x0A, 0x0B, 0x0C, 0x0D, 0x20, 0xA0, 0x1680,
          0x2028, 0x2029, 0x202F, 0x205F, 0x3000, 0xFEFF}
     \<or> (0x2000 \<le> c \<and> c \<le> 0x200A)"

text \<open>The classes \<open>[A-Z]\<close>, \<open>[a-z]\<close>, \<open>\d\<close> and \<open>[IVX]\<close>.\<close>

definition isUpper :: "jschar \<Rightarrow> bool" where
  "isUpper c \<longleftrightarrow> 0x41 \<le> c \<and> c \<le> 0x5A"

definition isLower :: "jschar \<Rightarrow> bool" where
  "isLower c \<longleftrightarrow> 0x61 \<le> c \<and> c \<le> 0x7A"

definition isDigit :: "jschar \<Rightarrow> bool" where
  "isDigit c \<longleftrightarrow> 0x30 \<le> c \<and> c \<le> 0x39"

definition isRoman :: "jschar \<Rightarrow> bool" where
  "isRoman c \<longleftrightarrow> c \<in> {0x49, 0x56, 0x58}"

definition isDot :: "jschar \<Rightarrow> bool" where
  "isDot c \<longleftrightarrow> c = 0x2E"

text \<open>\<open>text.trim()\<close>.\<close>

definition trim :: "jsstring \<Rightarrow> jsstring" where
  "trim s = rev (dropWhile isSpace (rev (dropWhile isSpace s)))"

text \<open>\<open>text.split('\n')\<close>: the result always has at least one element.\<close>

fun split_nl :: "jsstring \<Rightarrow> jsstring list" where
  "split_nl [] = [[]]"
| "split_nl (c # cs) =
     (if c = LF then [] # split_nl cs
      else (case split_nl cs of [] \<Rightarrow> [[c]] | l # ls \<Rightarrow> (c # l) # ls))"

text \<open>
  Reading \<open>xs[i]\<close> and calling a method on the result: out of range the read gives
  \<open>undefined\<close> and the call raises a TypeError.
\<close>

datatype error = TypeError

definition at :: "'a list \<Rightarrow> nat \<Rightarrow> error + 'a" where
  "at xs i = (if i < length xs then Inr (xs ! i) else Inl TypeError)"

section \<open>The regular expressions\<close>

text \<open>
  \<open>plus_then p s\<close> matches \<open>p+\<close> greedily at the start of \<open>s\<close> and returns the rest.
  Wherever it is used below, the class that follows is disjoint from \<open>p\<close>, so that a
  shorter match of \<open>p+\<close> can never succeed where the longest fails (the section on the
  matchers proves, for each expression, that the matcher accepts exactly the strings the
  expression matches).
\<close>

definition plus_then :: "(jschar \<Rightarrow> bool) \<Rightarrow> jsstring \<Rightarrow> jsstring option" where
  "plus_then p s = (if takeWhile p s = [] then None else Some (dropWhile p s))"

text \<open>\<open>/^[A-Z][A-Z\s]+$/\<close>\<close>

definition allCaps :: "jsstring \<Rightarrow> bool" where
  "allCaps s =
     (case s of [] \<Rightarrow> False
      | c # r \<Rightarrow> isUpper c \<and> r \<noteq> [] \<and> list_all (\<lambda>x. isUpper x \<or> isSpace x) r)"

text \<open>
  \<open>/^[A-Z][a-z]+(\s+[A-Z][a-z]+)*$/\<close> as its automaton: \<open>TStart\<close> before the first
  letter, \<open>TUpper\<close> after the capital of a word, \<open>TLower\<close> inside the lowercase run of a
  word (the only accepting state), \<open>TSpace\<close> inside the whitespace between two words.
\<close>

datatype title_state = TStart | TUpper | TLower | TSpace | TFail

fun title_step :: "title_state \<Rightarrow> jschar \<Rightarrow> title_state" where
  "title_step TStart c = (if isUpper c then TUpper else TFail)"
| "title_step TUpper c = (if isLower c then TLower else TFail)"
| "title_step TLower c = (if isLower c then TLower else if isSpace c then TSpace else TFail)"
| "title_step TSpace c = (if isSpace c then TSpace else if isUpper c then TUpper else TFail)"
| "title_step TFail c = TFail"

definition titleCase :: "jsstring \<Rightarrow> bool" where
  "titleCase s \<longleftrightarrow> foldl title_step TStart s = TLower"

text \<open>
  The same expression read as a language: a word is a capital followed by one or more
  lowercase letters, and a title is a word, or a word, one or more whitespace characters
  and a title.
\<close>

inductive title_lang :: "jsstring \<Rightarrow> bool" where
  one: "isUpper c \<Longrightarrow> ls \<noteq> [] \<Longrightarrow> list_all isLower ls \<Longrightarrow> title_lang (c # ls)"
| more: "isUpper c \<Longrightarrow> ls \<noteq> [] \<Longrightarrow> list_all isLower ls \<Longrightarrow> ws \<noteq> [] \<Longrightarrow> list_all isSpace ws
         \<Longrightarrow> title_lang rest \<Longrightarrow> title_lang (c # ls @ ws @ rest)"

text \<open>\<open>/^\d+\.\s+[A-Z]/\<close>\<close>

definition numbered :: "jsstring \<Rightarrow> bool" where
  "numbered s =
     (case plus_then isDigit s of
        Some (d # r) \<Rightarrow> isDot d \<and>
          (case plus_then isSpace r of Some (u # _) \<Rightarrow> isUpper u | _ \<Rightarrow> False)
      | _ \<Rightarrow> False)"

text \<open>\<open>/^[IVX]+\.\s+[A-Z]/\<close>\<close>

definition roman :: "jsstring \<Rightarrow> bool" where
  "roman s =
     (case plus_then isRoman s of
        Some (d # r) \<Rightarrow> isDot d \<and>
          (case plus_then isSpace r of Some (u # _) \<Rightarrow> isUpper u | _ \<Rightarrow> False)
      | _ \<Rightarrow> False)"

text \<open>
  The \<open>i\<close> flag compares characters after canonicalisation, which maps a character to
  its upper case unless that would turn a non-ASCII character into an ASCII one. Against
  the ASCII letters of \<open>Chapter\<close> and \<open>Section\<close> only the two cases of the same ASCII
  letter are equal.
\<close>

definition canon :: "jschar \<Rightarrow> jschar" where
  "canon c = (if isLower c then c - 0x20 else c)"

definition ci_prefix :: "jsstring \<Rightarrow> jsstring \<Rightarrow> jsstring option" where
  "ci_prefix lit s =
     (if length lit \<le> length s \<and> map canon (take (length lit) s) = map canon lit
      then Some (drop (length lit) s) else None)"

text \<open>\<open>/^Chapter\s+\d+/i\<close> and \<open>/^Section\s+\d+/i\<close>\<close>

definition keyword_number :: "jsstring \<Rightarrow> jsstring \<Rightarrow> bool" where
  "keyword_number lit s =
     (case ci_prefix lit s of
        Some r \<Rightarrow> (case plus_then isSpace r of Some (d # _) \<Rightarrow> isDigit d | _ \<Rightarrow> False)
      | None \<Rightarrow> False)"

definition chapter_pat :: "jsstring \<Rightarrow> bool" where
  "chapter_pat s = keyword_number (js ''Chapter'') s"

definition section_pat :: "jsstring \<Rightarrow> bool" where
  "section_pat s = keyword_number (js ''Section'') s"

text \<open>
  The bullet class of \<open>isListItem\<close> and of the marker-stripping \<open>replace\<close>. The source
  file holds, between \<open>[\<close> and \<open>\-\*]\<close>, the bytes \<open>E2 80 9A C3 84 C2 A2\<close>: the three
  characters U+201A, U+00C4 and U+00A2 (the bytes of the bullet U+2022 read in another
  encoding and saved again). The class is therefore these three, \<open>-\<close> and \<open>*\<close>.
\<close>

definition isBullet :: "jschar \<Rightarrow> bool" where
  "isBullet c \<longleftrightarrow> c \<in> {0x201A, 0xC4, 0xA2, 0x2D, 0x2A}"

text \<open>\<open>/^[\s]*[...\-\*]\s+/\<close>, \<open>/^[\s]*\d+\.\s+/\<close> and \<open>/^[\s]*[a-z]\.\s+/\<close>\<close>

definition bulletItem :: "jsstring \<Rightarrow> bool" where
  "bulletItem s =
     (case dropWhile isSpace s of b # w # _ \<Rightarrow> isBullet b \<and> isSpace w | _ \<Rightarrow> False)"

definition numberedItem :: "jsstring \<Rightarrow> bool" where
  "numberedItem s =
     (case plus_then isDigit (dropWhile isSpace s) of
        Some (d # w # _) \<Rightarrow> isDot d \<and> isSpace w
      | _ \<Rightarrow> False)"

definition letteredItem :: "jsstring \<Rightarrow> bool" where
  "letteredItem s =
     (case dropWhile isSpace s of l # d # w # _ \<Rightarrow> isLower l \<and> isDot d \<and> isSpace w
      | _ \<Rightarrow> False)"

section \<open>The helpers of \<open>server.js\<close>\<close>

text \<open>\<open>isHeader(line, allLines, currentIndex)\<close>\<close>

definition headerPatterns :: "jsstring \<Rightarrow> bool" where
  "headerPatterns line \<longleftrightarrow>
     allCaps line \<or> titleCase line \<or> numbered line \<or> roman line
     \<or> chapter_pat line \<or> section_pat line"

definition isHeader :: "jsstring \<Rightarrow> jsstring list \<Rightarrow> nat \<Rightarrow> error + bool" where
  "isHeader line allLines currentIndex =
     (if length line > 100 then Inr False
      else if int currentIndex < int (length allLines) - 1 then
        (case at allLines (currentIndex + 1) of
           Inl e \<Rightarrow> Inl e
         | Inr next_raw \<Rightarrow>
             (if length (trim next_raw) > length line * 2 then Inr True
              else Inr (headerPatterns line)))
      else Inr (headerPatterns line))"

text \<open>\<open>getHeaderLevel(line)\<close>\<close>

definition getHeaderLevel :: "jsstring \<Rightarrow> nat" where
  "getHeaderLevel line =
     (if allCaps line then 1
      else if numbered line then 2
      else if roman line then 2
      else if chapter_pat line then 1
      else if section_pat line then 2
      else 3)"

text \<open>\<open>isListItem(line)\<close>\<close>

definition isListItem :: "jsstring \<Rightarrow> bool" where
  "isListItem line \<longleftrightarrow> bulletItem line \<or> numberedItem line \<or> letteredItem line"

text \<open>
  \<open>escapeHtml(text)\<close>: every match of \<open>/[&<>"']/g\<close> is replaced by \<open>map[m]\<close>; a key
  missing from the map would give the text \<open>undefined\<close>.
\<close>

definition escape_map :: "(jschar \<times> jsstring) list" where
  "escape_map =
     [(0x26, js ''&amp;''), (0x3C, js ''&lt;''), (0x3E, js ''&gt;''),
      (0x22, js ''&quot;''), (0x27, js ''&#039;'')]"

definition needsEscape :: "jschar \<Rightarrow> bool" where
  "needsEscape c \<longleftrightarrow> c \<in> {0x26, 0x3C, 0x3E, 0x22, 0x27}"

definition escapeChar :: "jschar \<Rightarrow> jsstring" where
  "escapeChar c =
     (if needsEscape c
      then (case map_of escape_map c of Some r \<Rightarrow> r | None \<Rightarrow> js ''undefined'')
      else [c])"

definition escapeHtml :: "jsstring \<Rightarrow> jsstring" where
  "escapeHtml text = concat (map escapeChar text)"

section \<open>\<open>convertTextToHTML\<close>\<close>

record conv_state =
  html :: jsstring
  inList :: bool
  inParagraph :: bool

definition closeParagraph :: "conv_state \<Rightarrow> conv_state" where
  "closeParagraph s =
     (if inParagraph s then s\<lparr>html := html s @ js ''</p>'', inParagraph := False\<rparr> else s)"

definition closeList :: "conv_state \<Rightarrow> conv_state" where
  "closeList s =
     (if inList s then s\<lparr>html := html s @ js ''</ul>'', inList := False\<rparr> else s)"

text \<open>The decimal text of a number below ten (\<open>getHeaderLevel\<close> returns 1, 2 or 3).\<close>

definition showLevel :: "nat \<Rightarrow> jsstring" where
  "showLevel n = [0x30 + of_nat n]"

text \<open>\<open>line.replace(/^[\s...\-\*]+/, '').trim()\<close>\<close>

definition listItemText :: "jsstring \<Rightarrow> jsstring" where
  "listItemText line = trim (dropWhile (\<lambda>c. isSpace c \<or> isBullet c) line)"

definition emitHeader :: "jsstring \<Rightarrow> conv_state \<Rightarrow> conv_state" where
  "emitHeader line s =
     (let s1 = closeList (closeParagraph s);
          headerLevel = getHeaderLevel line
      in s1\<lparr>html := html s1 @ js ''<h'' @ showLevel headerLevel @ js ''>''
                     @ escapeHtml line @ js ''</h'' @ showLevel headerLevel @ js ''>''\<rparr>)"

definition emitListItem :: "jsstring \<Rightarrow> conv_state \<Rightarrow> conv_state" where
  "emitListItem line s =
     (let s1 = closeParagraph s;
          s2 = (if \<not> inList s1 then s1\<lparr>html := html s1 @ js ''<ul>'', inList := True\<rparr>
                else s1);
          listItem = listItemText line
      in s2\<lparr>html := html s2 @ js ''<li>'' @ escapeHtml listItem @ js ''</li>''\<rparr>)"

definition emitParagraph :: "jsstring \<Rightarrow> conv_state \<Rightarrow> conv_state" where
  "emitParagraph line s =
     (let s1 = (if \<not> inParagraph s then s\<lparr>html := html s @ js ''<p>'', inParagraph := True\<rparr>
                else s)
      in s1\<lparr>html := html s1 @ escapeHtml line @ js '' ''\<rparr>)"

text \<open>The body of the \<open>for\<close> loop at index \<open>i\<close>.\<close>

definition loop_body :: "jsstring list \<Rightarrow> nat \<Rightarrow> conv_state \<Rightarrow> error + conv_state" where
  "loop_body lines i s =
     (case at lines i of
        Inl e \<Rightarrow> Inl e
      | Inr raw \<Rightarrow>
          (let line = trim raw in
           if line = [] then Inr (closeList (closeParagraph s))
           else
             (case isHeader line lines i of
                Inl e \<Rightarrow> Inl e
              | Inr True \<Rightarrow> Inr (emitHeader line s)
              | Inr False \<Rightarrow>
                  (if isListItem line then Inr (emitListItem line s)
                   else Inr (emitParagraph line s)))))"

text \<open>The loop over the indices it is given, stopping at the first error.\<close>

fun loop :: "jsstring list \<Rightarrow> nat list \<Rightarrow> conv_state \<Rightarrow> error + conv_state" where
  "loop lines [] s = Inr s"
| "loop lines (i # is) s =
     (case loop_body lines i s of Inl e \<Rightarrow> Inl e | Inr s' \<Rightarrow> loop lines is s')"

definition nonblank_lines :: "jsstring \<Rightarrow> jsstring list" where
  "nonblank_lines text = filter (\<lambda>line. trim line \<noteq> []) (split_nl text)"

definition init_state :: conv_state where
  "init_state = \<lparr>html = [], inList = False, inParagraph = False\<rparr>"

definition finish :: "conv_state \<Rightarrow> jsstring" where
  "finish s =
     (let h1 = (if inParagraph s then html s @ js ''</p>'' else html s);
          h2 = (if inList s then h1 @ js ''</ul>'' else h1)
      in if h2 = [] then js ''<p>No content could be extracted from the PDF.</p>'' else h2)"

definition convertTextToHTML :: "jsstring \<Rightarrow> error + jsstring" where
  "convertTextToHTML text =
     (if text = [] \<or> trim text = [] then Inr (js ''<p>No text content found in the PDF.</p>'')
      else
        (let lines = nonblank_lines text in
         case loop lines [0..<length lines] init_state of
           Inl e \<Rightarrow> Inl e
         | Inr s \<Rightarrow> Inr (finish s)))"

section \<open>Texts and their lines\<close>

text \<open>The text whose lines are \<open>ls\<close>: the lines joined by line feeds.\<close>

fun join_nl :: "jsstring list \<Rightarrow> jsstring" where
  "join_nl [] = []"
| "join_nl [l] = l"
| "join_nl (l # ls) = l @ LF # join_nl ls"

text \<open>
  The lines that decide the result: the non-blank lines, trimmed (the loop and
  \<open>isHeader\<close> trim every line they read).
\<close>

definition text_lines :: "jsstring \<Rightarrow> jsstring list" where
  "text_lines t = map trim (nonblank_lines t)"

text \<open>How the loop classifies line \<open>i\<close> of the non-blank lines.\<close>

definition heading_at :: "jsstring list \<Rightarrow> nat \<Rightarrow> bool" where
  "heading_at lines i \<longleftrightarrow> isHeader (trim (lines ! i)) lines i = Inr True"

definition paragraph_at :: "jsstring list \<Rightarrow> nat \<Rightarrow> bool" where
  "paragraph_at lines i \<longleftrightarrow>
     isHeader (trim (lines ! i)) lines i = Inr False \<and> \<not> isListItem (trim (lines ! i))"

text \<open>
  Every line is a heading, or a paragraph line whose next line (if any) is a heading:
  every block of the result then comes from exactly one line, and none is a list.
\<close>

definition single_line_blocks :: "jsstring list \<Rightarrow> bool" where
  "single_line_blocks lines \<longleftrightarrow>
     list_all (\<lambda>i. heading_at lines i
                 \<or> (paragraph_at lines i
                     \<and> (if i + 1 < length lines then heading_at lines (i + 1) else True)))
       [0..<length lines]"

section \<open>Reading the markup back\<close>

text \<open>
  Modelled from the spec: the repository has no function that strips the markup from the
  result. The spec speaks of "re-classifying the emitted plain-text content (stripping
  markup)": \<open>strip_from\<close> removes every tag, from \<open><\<close> to the next \<open>>\<close>, and leaves a
  line feed in its place, so that the text of every block stands on lines of its own. Its
  first argument says whether the scan is inside a tag.
\<close>

fun strip_from :: "bool \<Rightarrow> jsstring \<Rightarrow> jsstring" where
  "strip_from inTag [] = []"
| "strip_from inTag (c # cs) =
     (if inTag then (if c = 0x3E then LF # strip_from False cs else strip_from True cs)
      else (if c = 0x3C then strip_from True cs else c # strip_from False cs))"

text \<open>Whether the scan of \<open>strip_from\<close> is inside a tag at the end of the string.\<close>

fun in_tag :: "bool \<Rightarrow> jsstring \<Rightarrow> bool" where
  "in_tag inTag [] = inTag"
| "in_tag inTag (c # cs) = in_tag (if inTag then c \<noteq> 0x3E else c = 0x3C) cs"

text \<open>
  Modelled from the spec: the plain-text content of a markup string, which the repository
  does not compute; the scan starts outside a tag.
\<close>

definition stripMarkup :: "jsstring \<Rightarrow> jsstring" where
  "stripMarkup h = strip_from False h"

text \<open>
  Modelled from the spec: the round trip "emitting then re-classifying the emitted
  plain-text content", which the repository does not have: convert the text, strip the
  result, convert again.
\<close>

definition roundTrip :: "jsstring \<Rightarrow> error + jsstring" where
  "roundTrip text =
     (case convertTextToHTML text of
        Inl e \<Rightarrow> Inl e
      | Inr out \<Rightarrow> convertTextToHTML (stripMarkup out))"

text \<open>A text without any of the five characters that \<open>escapeHtml\<close> replaces.\<close>

definition noEscapes :: "jsstring \<Rightarrow> bool" where
  "noEscapes t \<longleftrightarrow> list_all (\<lambda>c. \<not> needsEscape c) t"

section \<open>Evaluation\<close>

lemmas eval_defs = js_def LF_def isSpace_def isUpper_def isLower_def isDigit_def isRoman_def isDot_def
  trim_def at_def plus_then_def allCaps_def titleCase_def numbered_def roman_def canon_def ci_prefix_def
  keyword_number_def chapter_pat_def section_pat_def isBullet_def bulletItem_def numberedItem_def
  letteredItem_def headerPatterns_def isHeader_def getHeaderLevel_def isListItem_def escape_map_def
  needsEscape_def escapeChar_def escapeHtml_def closeParagraph_def closeList_def showLevel_def
  listItemText_def emitHeader_def emitListItem_def emitParagraph_def loop_body_def nonblank_lines_def
  init_state_def finish_def convertTextToHTML_def stripMarkup_def roundTrip_def noEscapes_def
  text_lines_def heading_at_def paragraph_at_def single_line_blocks_def Let_def

section \<open>Character classes and \<open>trim\<close>\<close>

lemma digit_not_lower: "isDigit c \<Longrightarrow> \<not> isLower c"
  by (auto simp: isDigit_def isLower_def word_le_nat_alt)

lemma roman_not_lower: "isRoman c \<Longrightarrow> \<not> isLower c"
  by (auto simp: isRoman_def isLower_def)

lemma trim_eq_Nil: "trim s = [] \<longleftrightarrow> (\<forall>c\<in>set s. isSpace c)"
proof
  assume "trim s = []"
  then have a: "\<forall>x\<in>set (dropWhile isSpace s). isSpace x"
    by (simp add: trim_def)
  show "\<forall>c\<in>set s. isSpace c"
  proof (cases "dropWhile isSpace s")
    case Nil
    then show ?thesis by simp
  next
    case (Cons x xs)
    then have "\<not> isSpace x" using hd_dropWhile [of isSpace s] by simp
    with a Cons show ?thesis by simp
  qed
next
  assume "\<forall>c\<in>set s. isSpace c"
  then have "dropWhile isSpace s = []" by simp
  then show "trim s = []" unfolding trim_def by (simp del: dropWhile_eq_Nil_conv)
qed

lemma plus_then_hd: "plus_then p s = Some r \<Longrightarrow> s \<noteq> [] \<and> p (hd s)"
  by (cases s) (auto simp: plus_then_def split: if_splits)

section \<open>The matchers and the regular expressions\<close>

text \<open>
  Each matcher accepts exactly the strings that its regular expression matches: the
  strings that split into the parts the expression names, one after the other. An
  expression without \<open>$\<close> matches a prefix, so anything may follow.
\<close>

lemma plus_then_found:
  assumes "xs \<noteq> []" and "list_all p xs" and "\<not> p c"
  shows "plus_then p (xs @ c # r) = Some (c # r)"
proof -
  from assms(2) have a: "\<And>x. x \<in> set xs \<Longrightarrow> p x" by (simp add: list_all_iff)
  with assms(3) have "takeWhile p (xs @ c # r) = xs" and "dropWhile p (xs @ c # r) = c # r"
    by simp_all
  with assms(1) show ?thesis by (simp add: plus_then_def)
qed

lemma plus_then_SomeD:
  assumes "plus_then p s = Some r"
  shows "\<exists>xs. xs \<noteq> [] \<and> list_all p xs \<and> s = xs @ r"
proof -
  from assms have "takeWhile p s \<noteq> []" and "r = dropWhile p s"
    by (auto simp: plus_then_def split: if_splits)
  moreover have "list_all p (takeWhile p s)"
    by (auto simp: list_all_iff dest: set_takeWhileD)
  ultimately show ?thesis
    by (metis takeWhile_dropWhile_id)
qed

lemma upper_not_space: "isUpper c \<Longrightarrow> \<not> isSpace c"
  by (auto simp: isUpper_def isSpace_def word_le_nat_alt)

lemma digit_not_space: "isDigit c \<Longrightarrow> \<not> isSpace c"
  by (auto simp: isDigit_def isSpace_def word_le_nat_alt)

lemma bullet_not_space: "isBullet c \<Longrightarrow> \<not> isSpace c"
  by (auto simp: isBullet_def isSpace_def)

lemma lower_not_space: "isLower c \<Longrightarrow> \<not> isSpace c"
  by (auto simp: isLower_def isSpace_def word_le_nat_alt)

lemma allCaps_iff:
  "allCaps s \<longleftrightarrow>
     (\<exists>c r. s = c # r \<and> isUpper c \<and> r \<noteq> [] \<and> list_all (\<lambda>x. isUpper x \<or> isSpace x) r)"
  by (cases s) (auto simp: allCaps_def)

lemma after_plus_unfold:
  "(case plus_then p s of Some (d # r) \<Rightarrow> Q d r | _ \<Rightarrow> False)
     \<longleftrightarrow> (\<exists>d r. plus_then p s = Some (d # r) \<and> Q d r)"
  by (cases "plus_then p s"; cases "the (plus_then p s)") auto

lemma after_plus_last_unfold:
  "(case plus_then p s of Some (u # x) \<Rightarrow> Q u | _ \<Rightarrow> False)
     \<longleftrightarrow> (\<exists>u r. plus_then p s = Some (u # r) \<and> Q u)"
  by (cases "plus_then p s"; cases "the (plus_then p s)") auto

lemma class_dot_capital_iff:
  assumes "\<not> p 0x2E"
  shows "(case plus_then p s of
            Some (d # r) \<Rightarrow> isDot d \<and>
              (case plus_then isSpace r of Some (u # _) \<Rightarrow> isUpper u | _ \<Rightarrow> False)
          | _ \<Rightarrow> False)
         \<longleftrightarrow> (\<exists>ds ws u rest. s = ds @ 0x2E # ws @ u # rest \<and> ds \<noteq> [] \<and> list_all p ds
                \<and> ws \<noteq> [] \<and> list_all isSpace ws \<and> isUpper u)"
    (is "?m \<longleftrightarrow> ?r")
proof
  assume ?m
  then obtain d r u r' where 1: "plus_then p s = Some (d # r)" "isDot d"
      and 2: "plus_then isSpace r = Some (u # r')" "isUpper u"
    unfolding after_plus_unfold after_plus_last_unfold by blast
  from plus_then_SomeD [OF 1(1)] obtain ds where "ds \<noteq> []" "list_all p ds" "s = ds @ d # r"
    by blast
  moreover from plus_then_SomeD [OF 2(1)] obtain ws where
    "ws \<noteq> []" "list_all isSpace ws" "r = ws @ u # r'"
    by blast
  ultimately show ?r
    using 1(2) 2(2) by (auto simp: isDot_def)
next
  assume ?r
  then obtain ds ws u rest where s: "s = ds @ 0x2E # ws @ u # rest"
      and ds: "ds \<noteq> []" "list_all p ds"
      and ws: "ws \<noteq> []" "list_all isSpace ws" and u: "isUpper u"
    by blast
  from ds assms have "plus_then p s = Some (0x2E # ws @ u # rest)"
    unfolding s by (rule plus_then_found)
  moreover from ws u have "plus_then isSpace (ws @ u # rest) = Some (u # rest)"
    by (simp add: plus_then_found upper_not_space)
  ultimately show ?m
    using u unfolding after_plus_unfold after_plus_last_unfold by (simp add: isDot_def)
qed

lemma numbered_iff:
  "numbered s \<longleftrightarrow>
     (\<exists>ds ws u rest. s = ds @ 0x2E # ws @ u # rest \<and> ds \<noteq> [] \<and> list_all isDigit ds
        \<and> ws \<noteq> [] \<and> list_all isSpace ws \<and> isUpper u)"
  unfolding numbered_def by (rule class_dot_capital_iff) (simp add: isDigit_def)

lemma roman_iff:
  "roman s \<longleftrightarrow>
     (\<exists>ds ws u rest. s = ds @ 0x2E # ws @ u # rest \<and> ds \<noteq> [] \<and> list_all isRoman ds
        \<and> ws \<noteq> [] \<and> list_all isSpace ws \<and> isUpper u)"
  unfolding roman_def by (rule class_dot_capital_iff) (simp add: isRoman_def)

lemma keyword_number_iff:
  "keyword_number lit s \<longleftrightarrow>
     (\<exists>k ws d rest. s = k @ ws @ d # rest \<and> map canon k = map canon lit
        \<and> ws \<noteq> [] \<and> list_all isSpace ws \<and> isDigit d)"
    (is "?m \<longleftrightarrow> ?r")
proof
  assume ?m
  then obtain r d r' where 1: "ci_prefix lit s = Some r"
      and 2: "plus_then isSpace r = Some (d # r')" "isDigit d"
    unfolding keyword_number_def
    by (cases "ci_prefix lit s") (auto simp: after_plus_last_unfold)
  from 1 have "s = take (length lit) s @ r" "map canon (take (length lit) s) = map canon lit"
    by (auto simp: ci_prefix_def split: if_splits)
  moreover from plus_then_SomeD [OF 2(1)] obtain ws where
    "ws \<noteq> []" "list_all isSpace ws" "r = ws @ d # r'"
    by blast
  ultimately show ?r using 2(2) by metis
next
  assume ?r
  then obtain k ws d rest where s: "s = k @ ws @ d # rest" and k: "map canon k = map canon lit"
      and ws: "ws \<noteq> []" "list_all isSpace ws" and d: "isDigit d"
    by blast
  from k have "length k = length lit" by (metis length_map)
  with k have "ci_prefix lit s = Some (ws @ d # rest)"
    by (simp add: ci_prefix_def s)
  moreover from ws d have "plus_then isSpace (ws @ d # rest) = Some (d # rest)"
    by (simp add: plus_then_found digit_not_space)
  ultimately show ?m using d by (simp add: keyword_number_def)
qed

lemma bulletItem_iff:
  "bulletItem s \<longleftrightarrow>
     (\<exists>sp b ws rest. s = sp @ b # ws @ rest \<and> list_all isSpace sp \<and> isBullet b
        \<and> ws \<noteq> [] \<and> list_all isSpace ws)"
    (is "?m \<longleftrightarrow> ?r")
proof
  assume ?m
  then obtain b w r where d: "dropWhile isSpace s = b # w # r" and b: "isBullet b" "isSpace w"
    by (auto simp: bulletItem_def split: list.splits)
  have "s = takeWhile isSpace s @ b # [w] @ r"
    using d by (metis append_Cons append_Nil takeWhile_dropWhile_id)
  moreover have "list_all isSpace (takeWhile isSpace s)"
    by (auto simp: list_all_iff dest: set_takeWhileD)
  ultimately show ?r using b by (intro exI [of _ "takeWhile isSpace s"] exI [of _ b] exI [of _ "[w]"] exI [of _ r]) simp
next
  assume ?r
  then obtain sp b ws rest where s: "s = sp @ b # ws @ rest" and sp: "list_all isSpace sp"
      and b: "isBullet b" and ws: "ws \<noteq> []" "list_all isSpace ws"
    by blast
  from sp b have "dropWhile isSpace s = b # ws @ rest"
    by (simp add: s list_all_iff bullet_not_space)
  with b ws show ?m by (cases ws) (auto simp: bulletItem_def)
qed

lemma numberedItem_iff:
  "numberedItem s \<longleftrightarrow>
     (\<exists>sp ds ws rest. s = sp @ ds @ 0x2E # ws @ rest \<and> list_all isSpace sp
        \<and> ds \<noteq> [] \<and> list_all isDigit ds \<and> ws \<noteq> [] \<and> list_all isSpace ws)"
    (is "?m \<longleftrightarrow> ?r")
proof
  assume ?m
  then obtain d w r where 1: "plus_then isDigit (dropWhile isSpace s) = Some (d # w # r)"
      and 2: "isDot d" "isSpace w"
    unfolding numberedItem_def
    by (cases "plus_then isDigit (dropWhile isSpace s)") (auto split: list.splits)
  from plus_then_SomeD [OF 1] obtain ds where
    ds: "ds \<noteq> []" "list_all isDigit ds" "dropWhile isSpace s = ds @ d # w # r"
    by blast
  have "s = takeWhile isSpace s @ ds @ d # [w] @ r"
    using ds(3) by (metis append_Cons append_Nil takeWhile_dropWhile_id)
  moreover have "list_all isSpace (takeWhile isSpace s)"
    by (auto simp: list_all_iff dest: set_takeWhileD)
  ultimately show ?r
    using ds(1,2) 2
    by (intro exI [of _ "takeWhile isSpace s"] exI [of _ ds] exI [of _ "[w]"] exI [of _ r])
       (simp add: isDot_def)
next
  assume ?r
  then obtain sp ds ws rest where s: "s = sp @ ds @ 0x2E # ws @ rest" and sp: "list_all isSpace sp"
      and ds: "ds \<noteq> []" "list_all isDigit ds" and ws: "ws \<noteq> []" "list_all isSpace ws"
    by blast
  from ds obtain d0 ds' where d0: "ds = d0 # ds'" "isDigit d0" by (cases ds) auto
  with sp have "dropWhile isSpace s = ds @ 0x2E # ws @ rest"
    by (simp add: s list_all_iff digit_not_space)
  moreover have "\<not> isDigit 0x2E" by (simp add: isDigit_def)
  with ds have "plus_then isDigit (ds @ 0x2E # ws @ rest) = Some (0x2E # ws @ rest)"
    by (rule plus_then_found)
  ultimately show ?m
    using ws by (cases ws) (auto simp: numberedItem_def isDot_def)
qed

lemma letteredItem_iff:
  "letteredItem s \<longleftrightarrow>
     (\<exists>sp l ws rest. s = sp @ l # 0x2E # ws @ rest \<and> list_all isSpace sp
        \<and> isLower l \<and> ws \<noteq> [] \<and> list_all isSpace ws)"
    (is "?m \<longleftrightarrow> ?r")
proof
  assume ?m
  then obtain l d w r where 1: "dropWhile isSpace s = l # d # w # r"
      and 2: "isLower l" "isDot d" "isSpace w"
    by (auto simp: letteredItem_def split: list.splits)
  have "s = takeWhile isSpace s @ l # d # [w] @ r"
    using 1 by (metis append_Cons append_Nil takeWhile_dropWhile_id)
  moreover have "list_all isSpace (takeWhile isSpace s)"
    by (auto simp: list_all_iff dest: set_takeWhileD)
  ultimately show ?r
    using 2
    by (intro exI [of _ "takeWhile isSpace s"] exI [of _ l] exI [of _ "[w]"] exI [of _ r])
       (simp add: isDot_def)
next
  assume ?r
  then obtain sp l ws rest where s: "s = sp @ l # 0x2E # ws @ rest" and sp: "list_all isSpace sp"
      and l: "isLower l" and ws: "ws \<noteq> []" "list_all isSpace ws"
    by blast
  from sp l have "dropWhile isSpace s = l # 0x2E # ws @ rest"
    by (simp add: s list_all_iff lower_not_space)
  with l ws show ?m by (cases ws) (auto simp: letteredItem_def isDot_def)
qed

lemma run_fail: "foldl title_step TFail s = TFail"
  by (induction s) auto

lemma run_lower: "list_all isLower ls \<Longrightarrow> foldl title_step TLower ls = TLower"
  by (induction ls) auto

lemma run_space: "list_all isSpace ws \<Longrightarrow> foldl title_step TSpace ws = TSpace"
  by (induction ws) auto

lemma run_word: "ls \<noteq> [] \<Longrightarrow> list_all isLower ls \<Longrightarrow> foldl title_step TUpper ls = TLower"
  by (cases ls) (auto simp: run_lower)

lemma run_gap: "ws \<noteq> [] \<Longrightarrow> list_all isSpace ws \<Longrightarrow> foldl title_step TLower ws = TSpace"
  by (cases ws) (auto simp: run_space lower_not_space)

lemma upper_not_lower: "isUpper c \<Longrightarrow> \<not> isLower c"
  by (auto simp: isUpper_def isLower_def word_le_nat_alt)

lemma title_lang_hd: "title_lang s \<Longrightarrow> s \<noteq> [] \<and> isUpper (hd s)"
  by (induction rule: title_lang.induct) auto

lemma run_restart: "s \<noteq> [] \<Longrightarrow> isUpper (hd s) \<Longrightarrow> foldl title_step TSpace s = foldl title_step TStart s"
  by (cases s) (auto simp: upper_not_space)

lemma title_lang_accepted: "title_lang s \<Longrightarrow> foldl title_step TStart s = TLower"
proof (induction rule: title_lang.induct)
  case (one c ls)
  then show ?case by (simp add: run_word)
next
  case (more c ls ws rest)
  then show ?case
    using title_lang_hd [of rest] by (simp add: run_word run_gap run_restart)
qed

lemma all_takeWhile: "list_all p (takeWhile p s)"
  by (auto simp: list_all_iff dest: set_takeWhileD)

lemma accepted_title_lang: "foldl title_step TStart s = TLower \<Longrightarrow> title_lang s"
proof (induction s rule: length_induct)
  case (1 s)
  note acc = \<open>foldl title_step TStart s = TLower\<close>
  from acc obtain c t where s: "s = c # t" by (cases s) auto
  from acc s have c: "isUpper c" by (auto simp: run_fail split: if_splits)
  with acc s have t: "foldl title_step TUpper t = TLower" by simp
  let ?ls = "takeWhile isLower t" and ?t' = "dropWhile isLower t"
  have ls: "?ls \<noteq> []"
  proof
    assume "?ls = []"
    then have "t = [] \<or> \<not> isLower (hd t)" by (simp add: takeWhile_eq_Nil_iff)
    with t show False by (cases t) (auto simp: run_fail)
  qed
  have lls: "list_all isLower ?ls" by (rule all_takeWhile)
  have "foldl title_step TUpper (?ls @ ?t') = foldl title_step TLower ?t'"
    using run_word [OF ls lls] by (simp only: foldl_append)
  with t have t': "foldl title_step TLower ?t' = TLower" by simp
  show ?case
  proof (cases ?t')
    case Nil
    then have "t = ?ls" by (metis append_Nil2 takeWhile_dropWhile_id)
    with c ls lls s show ?thesis by (metis title_lang.one)
  next
    case (Cons x u)
    then have "\<not> isLower x" using hd_dropWhile [of isLower t] by simp
    with t' Cons have x: "isSpace x" by (auto simp: run_fail split: if_splits)
    let ?ws = "takeWhile isSpace ?t'" and ?rest = "dropWhile isSpace ?t'"
    from x Cons have ws: "?ws \<noteq> []" by simp
    have lws: "list_all isSpace ?ws" by (rule all_takeWhile)
    have "foldl title_step TLower (?ws @ ?rest) = foldl title_step TSpace ?rest"
      using run_gap [OF ws lws] by (simp only: foldl_append)
    with t' have r: "foldl title_step TSpace ?rest = TLower" by simp
    then obtain y v where rest: "?rest = y # v" by (cases ?rest) auto
    then have "\<not> isSpace y" using hd_dropWhile [of isSpace ?t'] by simp
    with r rest have y: "isUpper y" by (auto simp: run_fail split: if_splits)
    with rest have "foldl title_step TSpace ?rest = foldl title_step TStart ?rest"
      by (intro run_restart) simp_all
    then have "foldl title_step TStart ?rest = foldl title_step TSpace ?rest"
      by simp
    with r have acc': "foldl title_step TStart ?rest = TLower" by simp
    have "length ?rest \<le> length ?t'" by (rule length_dropWhile_le)
    moreover have "length ?t' \<le> length t" by (rule length_dropWhile_le)
    ultimately have "length ?rest < length s" using s by simp
    with "1.IH" acc' have "title_lang ?rest" by blast
    with c ls lls ws lws have "title_lang (c # ?ls @ ?ws @ ?rest)" by (rule title_lang.more)
    moreover have "s = c # ?ls @ ?ws @ ?rest" using s by simp
    ultimately show ?thesis by simp
  qed
qed

lemma titleCase_iff: "titleCase s \<longleftrightarrow> title_lang s"
  unfolding titleCase_def using title_lang_accepted accepted_title_lang by blast

section \<open>Heading eligibility and heading level\<close>

text \<open>
  C5. A line of more than 100 characters is never classified as a heading, whatever the
  next line is and whichever heading pattern the line matches: \<open>isHeader\<close> answers false
  before it looks at anything else, and the loop, which classifies the trimmed line,
  emits such a line as a list item or as paragraph text.
\<close>

theorem long_line_never_header:
  assumes "length line > 100"
  shows "isHeader line allLines currentIndex = Inr False
         \<and> (currentIndex < length allLines \<and> trim (allLines ! currentIndex) = line \<longrightarrow>
              loop_body allLines currentIndex s =
                Inr (if isListItem line then emitListItem line s else emitParagraph line s))"
proof -
  from assms have h: "isHeader line allLines currentIndex = Inr False"
    by (simp add: isHeader_def)
  from assms have "line \<noteq> []" by auto
  with h show ?thesis by (simp add: loop_body_def at_def Let_def)
qed

text \<open>A line of 101 capitals matches the all-caps pattern and is still no heading.\<close>

theorem long_line_never_header_witness:
  "length (replicate 101 (0x41 :: jschar)) > 100
   \<and> allCaps (replicate 101 0x41)
   \<and> isHeader (replicate 101 0x41) [replicate 101 0x41, replicate 300 0x61] 0 = Inr False
   \<and> loop_body [replicate 101 0x41, replicate 300 0x61] 0 init_state
       = Inr (emitParagraph (replicate 101 0x41) init_state)"
proof -
  let ?x = "replicate 101 (0x41 :: jschar)"
  let ?ls = "[?x, replicate 300 0x61]"
  have h: "length ?x > 100" by simp
  have caps: "allCaps ?x" by code_simp
  have i: "0 < length ?ls \<and> trim (?ls ! 0) = ?x" by code_simp
  have n: "\<not> isListItem ?x" by code_simp
  from h caps i n long_line_never_header [OF h, of ?ls 0 init_state] show ?thesis by simp
qed

text \<open>
  A line that matches the \<open>Chapter\<close> pattern starts with \<open>C\<close> or \<open>c\<close>, so it matches
  neither the numbered nor the Roman pattern, which \<open>getHeaderLevel\<close> tests first.
\<close>

lemma canon_C: "canon 0x43 = 0x43"
  by (simp add: canon_def isLower_def)

lemma chapter_hd: "chapter_pat line \<Longrightarrow> line \<noteq> [] \<and> canon (hd line) = 0x43"
  by (cases line)
    (auto simp: chapter_pat_def keyword_number_def ci_prefix_def js_def canon_C
          split: option.splits if_splits)

lemma chapter_not_numbered: "chapter_pat line \<Longrightarrow> \<not> numbered line"
proof
  assume c: "chapter_pat line" and n: "numbered line"
  from n obtain r where "plus_then isDigit line = Some r"
    by (auto simp: numbered_def split: option.splits)
  then have d: "isDigit (hd line)" by (simp add: plus_then_hd)
  then have "canon (hd line) = hd line" by (simp add: canon_def digit_not_lower)
  with c d show False by (simp add: chapter_hd isDigit_def)
qed

lemma chapter_not_roman: "chapter_pat line \<Longrightarrow> \<not> roman line"
proof
  assume c: "chapter_pat line" and n: "roman line"
  from n obtain r where "plus_then isRoman line = Some r"
    by (auto simp: roman_def split: option.splits)
  then have d: "isRoman (hd line)" by (simp add: plus_then_hd)
  then have "canon (hd line) = hd line" by (simp add: canon_def roman_not_lower)
  with c d show False by (simp add: chapter_hd isRoman_def)
qed

lemma level_examples:
  "convertTextToHTML (js ''CHAPTER OVERVIEW'') = Inr (js ''<h1>CHAPTER OVERVIEW</h1>'')"
  "convertTextToHTML (js ''1. Introduction'') = Inr (js ''<h2>1. Introduction</h2>'')"
  by (simp_all add: eval_defs)

text \<open>
  C6. The level of a heading: an all-caps line and a \<open>Chapter <number>\<close> line get level 1,
  also when \<open>getHeaderLevel\<close> tests the numbered and Roman patterns before the
  \<open>Chapter\<close> one; a line that matches the numbered, Roman or \<open>Section\<close> pattern and
  neither of those two gets level 2; every other line gets level 3, among them the lines
  that are headings only by the length and density rule. The line \<open>CHAPTER OVERVIEW\<close>
  becomes a level-1 heading and the line \<open>1. Introduction\<close> a level-2 heading.
\<close>

theorem header_level_precedence:
  "(allCaps line \<or> chapter_pat line \<longrightarrow> getHeaderLevel line = 1)
   \<and> (\<not> allCaps line \<and> \<not> chapter_pat line
        \<and> (numbered line \<or> roman line \<or> section_pat line) \<longrightarrow> getHeaderLevel line = 2)
   \<and> (\<not> allCaps line \<and> \<not> chapter_pat line
        \<and> \<not> numbered line \<and> \<not> roman line \<and> \<not> section_pat line \<longrightarrow> getHeaderLevel line = 3)
   \<and> convertTextToHTML (js ''CHAPTER OVERVIEW'') = Inr (js ''<h1>CHAPTER OVERVIEW</h1>'')
   \<and> convertTextToHTML (js ''1. Introduction'') = Inr (js ''<h2>1. Introduction</h2>'')"
  using chapter_not_numbered [of line] chapter_not_roman [of line]
  by (auto simp: getHeaderLevel_def level_examples)

theorem header_level_precedence_witness:
  "chapter_pat (js ''Chapter 7'') \<and> getHeaderLevel (js ''Chapter 7'') = 1
   \<and> \<not> allCaps (js ''Section 2'') \<and> \<not> chapter_pat (js ''Section 2'')
   \<and> section_pat (js ''Section 2'') \<and> getHeaderLevel (js ''Section 2'') = 2
   \<and> \<not> allCaps (js ''plain words'') \<and> \<not> chapter_pat (js ''plain words'')
   \<and> \<not> numbered (js ''plain words'') \<and> \<not> roman (js ''plain words'')
   \<and> \<not> section_pat (js ''plain words'') \<and> getHeaderLevel (js ''plain words'') = 3"
proof -
  have a: "chapter_pat (js ''Chapter 7'')"
    by (simp add: eval_defs)
  have b: "\<not> allCaps (js ''Section 2'') \<and> \<not> chapter_pat (js ''Section 2'')
           \<and> section_pat (js ''Section 2'')"
    by (simp add: eval_defs)
  have c: "\<not> allCaps (js ''plain words'') \<and> \<not> chapter_pat (js ''plain words'')
           \<and> \<not> numbered (js ''plain words'') \<and> \<not> roman (js ''plain words'')
           \<and> \<not> section_pat (js ''plain words'')"
    by (simp add: eval_defs)
  from a b c header_level_precedence [of "js ''Chapter 7''"]
    header_level_precedence [of "js ''Section 2''"]
    header_level_precedence [of "js ''plain words''"]
  show ?thesis by blast
qed

section \<open>Totality and the empty input\<close>

lemma loop_body_total: "i < length lines \<Longrightarrow> \<exists>s'. loop_body lines i s = Inr s'"
  by (auto simp: loop_body_def at_def isHeader_def Let_def split: sum.splits bool.splits)

lemma loop_total: "\<forall>i\<in>set is. i < length lines \<Longrightarrow> \<exists>s'. loop lines is s = Inr s'"
proof (induction "is" arbitrary: s)
  case Nil
  then show ?case by simp
next
  case (Cons i "is")
  then obtain s1 where "loop_body lines i s = Inr s1"
    using loop_body_total [of i lines s] by auto
  with Cons show ?case by simp
qed

lemma js_nonempty: "js (c # cs) \<noteq> []"
  by (simp add: js_def)

lemma finish_nonempty: "finish s \<noteq> []"
  by (simp add: finish_def Let_def js_def)

text \<open>
  C7. For every input text the conversion returns a markup string and raises nothing: the
  two array reads of the loop and of \<open>isHeader\<close> are always in range, and the result is
  never the empty string. For the empty text and for a text of whitespace only (blank
  lines only) the result is exactly the fallback paragraph
  \<open><p>No text content found in the PDF.</p>\<close>.
\<close>

theorem convert_total:
  "\<exists>out. convertTextToHTML text = Inr out \<and> out \<noteq> []
     \<and> (list_all isSpace text \<longrightarrow> out = js ''<p>No text content found in the PDF.</p>'')"
proof (cases "text = [] \<or> trim text = []")
  case True
  then have "convertTextToHTML text = Inr (js ''<p>No text content found in the PDF.</p>'')"
    by (simp add: convertTextToHTML_def)
  then show ?thesis by (simp add: js_def)
next
  case False
  then have nb: "\<not> list_all isSpace text" by (simp add: trim_eq_Nil list_all_iff)
  obtain s where "loop (nonblank_lines text) [0..<length (nonblank_lines text)] init_state = Inr s"
    using loop_total [of "[0..<length (nonblank_lines text)]" "nonblank_lines text" init_state]
    by auto
  with False have "convertTextToHTML text = Inr (finish s)"
    by (simp add: convertTextToHTML_def Let_def)
  with nb finish_nonempty [of s] show ?thesis by blast
qed

theorem convert_total_witness:
  "list_all isSpace (js ''  '' @ [LF] @ js '' '')
   \<and> convertTextToHTML (js ''  '' @ [LF] @ js '' '') = Inr (js ''<p>No text content found in the PDF.</p>'')
   \<and> list_all isSpace []
   \<and> convertTextToHTML [] = Inr (js ''<p>No text content found in the PDF.</p>'')"
proof -
  have h: "list_all isSpace (js ''  '' @ [LF] @ js '' '')"
    by (simp add: js_def LF_def isSpace_def)
  from h convert_total [of "js ''  '' @ [LF] @ js '' ''"] convert_total [of "[]"]
  show ?thesis by auto
qed

section \<open>Escaping\<close>

lemma escape_examples:
  "convertTextToHTML (js ''A & B < C'') = Inr (js ''<p>A &amp; B &lt; C </p>'')"
  by (simp add: eval_defs)

lemma escapeHtml_append: "escapeHtml (a @ b) = escapeHtml a @ escapeHtml b"
  by (simp add: escapeHtml_def)

lemma escapeHtml_plain: "list_all (\<lambda>c. \<not> needsEscape c) t \<Longrightarrow> escapeHtml t = t"
  by (induction t) (auto simp: escapeHtml_def escapeChar_def)

lemma escapeChar_no_raw: "set (escapeChar c) \<inter> {0x3C, 0x3E, 0x22, 0x27} = {}"
  by (auto simp: escapeChar_def needsEscape_def escape_map_def js_def)

lemma escapeHtml_no_raw: "set (escapeHtml t) \<inter> {0x3C, 0x3E, 0x22, 0x27} = {}"
  using escapeChar_no_raw by (induction t) (auto simp: escapeHtml_def)

lemma emitHeader_html:
  "html (emitHeader line s) =
     html (closeList (closeParagraph s))
       @ js ''<h'' @ showLevel (getHeaderLevel line) @ js ''>'' @ escapeHtml line
       @ js ''</h'' @ showLevel (getHeaderLevel line) @ js ''>''"
  by (simp add: emitHeader_def Let_def)

lemma emitListItem_html:
  "html (emitListItem line s) =
     html (closeParagraph s) @ (if inList s then [] else js ''<ul>'')
       @ js ''<li>'' @ escapeHtml (listItemText line) @ js ''</li>''"
  by (simp add: emitListItem_def closeParagraph_def Let_def)

lemma emitParagraph_html:
  "html (emitParagraph line s) =
     html s @ (if inParagraph s then [] else js ''<p>'') @ escapeHtml line @ js '' ''"
  by (simp add: emitParagraph_def Let_def)

text \<open>
  C8. \<open>escapeHtml\<close> replaces each of the five characters \<open>&\<close>, \<open><\<close>, \<open>>\<close>, \<open>"\<close>
  (0x22) and \<open>'\<close> (0x27) by its character reference, leaves every other character as
  it is, and works character by character (it distributes over concatenation, and a text
  without the five characters is unchanged), so that the escaped text holds no \<open><\<close>,
  \<open>>\<close>, \<open>"\<close> or \<open>'\<close>. A heading, a list item and a paragraph line each append their
  tags as they are and their text through \<open>escapeHtml\<close>: the line \<open>A & B < C\<close> comes
  out as \<open><p>A &amp; B &lt; C </p>\<close>.
\<close>

theorem escapeHtml_contract:
  "escapeHtml [0x26] = js ''&amp;'' \<and> escapeHtml [0x3C] = js ''&lt;''
   \<and> escapeHtml [0x3E] = js ''&gt;'' \<and> escapeHtml [0x22] = js ''&quot;''
   \<and> escapeHtml [0x27] = js ''&#039;''
   \<and> js ''&<>'' = [0x26, 0x3C, 0x3E]
   \<and> (c \<notin> {0x26, 0x3C, 0x3E, 0x22, 0x27} \<longrightarrow> escapeHtml [c] = [c])
   \<and> escapeHtml (a @ b) = escapeHtml a @ escapeHtml b
   \<and> (set t \<inter> {0x26, 0x3C, 0x3E, 0x22, 0x27} = {} \<longrightarrow> escapeHtml t = t)
   \<and> set (escapeHtml u) \<inter> {0x3C, 0x3E, 0x22, 0x27} = {}
   \<and> html (emitHeader line s) =
       html (closeList (closeParagraph s))
         @ js ''<h'' @ showLevel (getHeaderLevel line) @ js ''>'' @ escapeHtml line
         @ js ''</h'' @ showLevel (getHeaderLevel line) @ js ''>''
   \<and> html (emitListItem line s) =
       html (closeParagraph s) @ (if inList s then [] else js ''<ul>'')
         @ js ''<li>'' @ escapeHtml (listItemText line) @ js ''</li>''
   \<and> html (emitParagraph line s) =
       html s @ (if inParagraph s then [] else js ''<p>'') @ escapeHtml line @ js '' ''
   \<and> convertTextToHTML (js ''A & B < C'') = Inr (js ''<p>A &amp; B &lt; C </p>'')"
proof -
  have one: "escapeHtml [0x26] = js ''&amp;'' \<and> escapeHtml [0x3C] = js ''&lt;''
     \<and> escapeHtml [0x3E] = js ''&gt;'' \<and> escapeHtml [0x22] = js ''&quot;''
     \<and> escapeHtml [0x27] = js ''&#039;'' \<and> js ''&<>'' = [0x26, 0x3C, 0x3E]"
    by (simp add: escapeHtml_def escapeChar_def needsEscape_def escape_map_def js_def)
  have other: "c \<notin> {0x26, 0x3C, 0x3E, 0x22, 0x27} \<longrightarrow> escapeHtml [c] = [c]"
    by (simp add: escapeHtml_def escapeChar_def needsEscape_def)
  have plain: "set t \<inter> {0x26, 0x3C, 0x3E, 0x22, 0x27} = {} \<longrightarrow> escapeHtml t = t"
  proof
    assume "set t \<inter> {0x26, 0x3C, 0x3E, 0x22, 0x27} = {}"
    then have "list_all (\<lambda>c. \<not> needsEscape c) t"
      by (auto simp: list_all_iff needsEscape_def)
    then show "escapeHtml t = t" by (rule escapeHtml_plain)
  qed
  from one other plain escapeHtml_append escape_examples escapeHtml_no_raw [of u]
    emitHeader_html [of line s] emitListItem_html [of line s] emitParagraph_html [of line s]
  show ?thesis by blast
qed

theorem escapeHtml_contract_witness:
  "(0x41 :: jschar) \<notin> {0x26, 0x3C, 0x3E, 0x22, 0x27} \<and> escapeHtml [0x41] = [0x41]
   \<and> set (js ''plain text'') \<inter> {0x26, 0x3C, 0x3E, 0x22, 0x27} = {}
   \<and> escapeHtml (js ''plain text'') = js ''plain text''"
proof -
  have a: "(0x41 :: jschar) \<notin> {0x26, 0x3C, 0x3E, 0x22, 0x27}" by simp
  have b: "set (js ''plain text'') \<inter> {0x26, 0x3C, 0x3E, 0x22, 0x27} = {}"
    by (simp add: js_def)
  from a b escapeHtml_contract [of "0x41" "[]" "[]" "js ''plain text''"]
  show ?thesis by blast
qed

section \<open>The paragraph branch and the open list\<close>

text \<open>
  The header branch and the list-item branch of the loop close the other open container
  before they write; the paragraph branch does not: with a list open it leaves the list
  open and opens the paragraph inside it.
\<close>

lemma paragraph_branch_keeps_list:
  "inList s \<Longrightarrow> inList (emitParagraph line s) \<and> inParagraph (emitParagraph line s)"
  by (simp add: emitParagraph_def Let_def)

lemma header_branch_closes_both:
  "\<not> inList (emitHeader line s) \<and> \<not> inParagraph (emitHeader line s)"
  by (simp add: emitHeader_def closeList_def closeParagraph_def Let_def)

lemma list_branch_closes_paragraph:
  "inList (emitListItem line s) \<and> \<not> inParagraph (emitListItem line s)"
  by (simp add: emitListItem_def closeParagraph_def Let_def)

text \<open>
  C1. The input \<open>- item one\<close>, \<open>plain\<close> is a list item directly followed by paragraph
  text. The paragraph branch of the loop opens \<open><p>\<close> without closing the list, so the
  paragraph lands inside the list element and \<open></ul>\<close> comes only at the end of the text.
\<close>

theorem list_then_paragraph_leaves_list_open:
  "isHeader (js ''- item one'') [js ''- item one'', js ''plain''] 0 = Inr False
   \<and> isListItem (js ''- item one'')
   \<and> isHeader (js ''plain'') [js ''- item one'', js ''plain''] 1 = Inr False
   \<and> \<not> isListItem (js ''plain'')
   \<and> convertTextToHTML (js ''- item one'' @ [LF] @ js ''plain'')
       = Inr (js ''<ul><li>item one</li><p>plain </p></ul>'')"
  by (simp add: eval_defs)

text \<open>
  C2. After the first two lines of \<open>* alpha\<close>, \<open>beta gamma\<close>, \<open>* delta\<close> both flags are
  set: the paragraph and the list are open at once, and the finished markup holds a
  paragraph element inside the list element.
\<close>

theorem paragraph_and_list_both_open:
  "nonblank_lines (js ''* alpha'' @ [LF] @ js ''beta gamma'' @ [LF] @ js ''* delta'')
     = [js ''* alpha'', js ''beta gamma'', js ''* delta'']
   \<and> loop [js ''* alpha'', js ''beta gamma'', js ''* delta''] [0, 1] init_state
       = Inr \<lparr>html = js ''<ul><li>alpha</li><p>beta gamma '', inList = True, inParagraph = True\<rparr>
   \<and> convertTextToHTML (js ''* alpha'' @ [LF] @ js ''beta gamma'' @ [LF] @ js ''* delta'')
       = Inr (js ''<ul><li>alpha</li><p>beta gamma </p><li>delta</li></ul>'')"
  by (simp add: eval_defs)

section \<open>Consecutive paragraph lines\<close>

text \<open>
  C3, as stated, fails: with a blank line between two paragraph lines the result is still
  one paragraph, the same as without the blank line (and the paragraph text ends with a
  space after the last line).
\<close>

theorem blank_line_does_not_split_paragraph:
  "convertTextToHTML (js ''alpha beta'' @ [LF, LF] @ js ''gamma delta'')
     = Inr (js ''<p>alpha beta gamma delta </p>'')
   \<and> convertTextToHTML (js ''alpha beta'' @ [LF] @ js ''gamma delta'')
     = Inr (js ''<p>alpha beta gamma delta </p>'')"
  by (simp add: eval_defs)

lemma loop_body_paragraph:
  assumes "i < length lines" and "trim (lines ! i) \<noteq> []"
    and "isHeader (trim (lines ! i)) lines i = Inr False"
    and "\<not> isListItem (trim (lines ! i))"
  shows "loop_body lines i s = Inr (emitParagraph (trim (lines ! i)) s)"
  using assms by (simp add: loop_body_def at_def Let_def)

text \<open>
  C3, amended. For two consecutive non-blank lines that are neither headings nor list
  items, the two iterations of the loop append to the markup: \<open><p>\<close> unless a paragraph is
  already open, then the escaped text of the first line and a space, then the escaped text
  of the second line and a space, with nothing between them; the paragraph stays open.
\<close>

theorem consecutive_paragraph_lines_merge:
  assumes "i + 1 < length lines"
    and "trim (lines ! i) \<noteq> []" and "trim (lines ! (i + 1)) \<noteq> []"
    and "isHeader (trim (lines ! i)) lines i = Inr False"
    and "isHeader (trim (lines ! (i + 1))) lines (i + 1) = Inr False"
    and "\<not> isListItem (trim (lines ! i))" and "\<not> isListItem (trim (lines ! (i + 1)))"
  shows "loop lines [i, i + 1] s =
     Inr (s\<lparr>html := html s @ (if inParagraph s then [] else js ''<p>'')
                    @ escapeHtml (trim (lines ! i)) @ js '' ''
                    @ escapeHtml (trim (lines ! (i + 1))) @ js '' '',
            inParagraph := True\<rparr>)"
proof -
  have a: "loop_body lines i s = Inr (emitParagraph (trim (lines ! i)) s)"
    using assms by (simp add: loop_body_paragraph)
  have b: "loop_body lines (i + 1) (emitParagraph (trim (lines ! i)) s)
           = Inr (emitParagraph (trim (lines ! (i + 1))) (emitParagraph (trim (lines ! i)) s))"
    using assms by (simp add: loop_body_paragraph)
  from a b show ?thesis
    by (simp add: emitParagraph_def Let_def)
qed

theorem consecutive_paragraph_lines_merge_witness:
  "loop [js ''alpha beta'', js ''gamma delta''] [0, 0 + 1] init_state =
     Inr \<lparr>html = js ''<p>alpha beta gamma delta '', inList = False, inParagraph = True\<rparr>"
proof -
  let ?ls = "[js ''alpha beta'', js ''gamma delta'']"
  have 1: "0 + 1 < length ?ls" by simp
  have 2: "trim (?ls ! 0) \<noteq> []" by (simp add: eval_defs)
  have 3: "trim (?ls ! (0 + 1)) \<noteq> []" by (simp add: eval_defs)
  have 4: "isHeader (trim (?ls ! 0)) ?ls 0 = Inr False" by (simp add: eval_defs)
  have 5: "isHeader (trim (?ls ! (0 + 1))) ?ls (0 + 1) = Inr False" by (simp add: eval_defs)
  have 6: "\<not> isListItem (trim (?ls ! 0))" by (simp add: eval_defs)
  have 7: "\<not> isListItem (trim (?ls ! (0 + 1)))" by (simp add: eval_defs)
  have "init_state\<lparr>html := html init_state @ (if inParagraph init_state then [] else js ''<p>'')
                    @ escapeHtml (trim (?ls ! 0)) @ js '' ''
                    @ escapeHtml (trim (?ls ! (0 + 1))) @ js '' '',
            inParagraph := True\<rparr>
        = \<lparr>html = js ''<p>alpha beta gamma delta '', inList = False, inParagraph = True\<rparr>"
    by (simp add: eval_defs)
  with consecutive_paragraph_lines_merge [OF 1 2 3 4 5 6 7, of init_state]
  show ?thesis by (simp only:)
qed

section \<open>List items and their markers\<close>

lemma trim_id:
  assumes "s \<noteq> []" and "\<not> isSpace (hd s)" and "\<not> isSpace (last s)"
  shows "trim s = s"
proof -
  from assms have a: "dropWhile isSpace s = s" by (cases s) auto
  from assms have "rev s \<noteq> []" and "\<not> isSpace (hd (rev s))" by (simp_all add: hd_rev)
  then have "dropWhile isSpace (rev s) = rev s" by (cases "rev s") auto
  with a show ?thesis by (simp add: trim_def)
qed

lemma trim_fix_hd:
  assumes "trim s = s" and "s \<noteq> []"
  shows "\<not> isSpace (hd s)"
proof
  assume sp: "isSpace (hd s)"
  from assms(2) obtain x xs where s: "s = x # xs" by (cases s) auto
  with sp have "length (dropWhile isSpace s) \<le> length xs"
    by (simp add: length_dropWhile_le)
  moreover have "length (trim s) \<le> length (dropWhile isSpace s)"
    using length_dropWhile_le [of isSpace "rev (dropWhile isSpace s)"] by (simp add: trim_def)
  ultimately have "length (trim s) < length s" using s by simp
  with assms(1) show False by simp
qed

lemma dash_star_bullet: "m = 0x2D \<or> m = 0x2A \<Longrightarrow> isBullet m \<and> \<not> isSpace m"
  by (auto simp: isBullet_def isSpace_def)

lemma bullet_marker_stripped:
  assumes m: "m = 0x2D \<or> m = 0x2A"
    and ws: "ws \<noteq> []" "list_all isSpace ws"
    and rest: "rest \<noteq> []" "\<not> isSpace (hd rest)" "\<not> isBullet (hd rest)" "\<not> isSpace (last rest)"
  shows "isListItem (m # ws @ rest) \<and> listItemText (m # ws @ rest) = rest"
proof -
  from ws obtain w ws' where w: "ws = w # ws'" "isSpace w" by (cases ws) auto
  from m have mb: "isBullet m" "\<not> isSpace m" by (simp_all add: dash_star_bullet)
  then have "bulletItem (m # ws @ rest)" using w by (simp add: bulletItem_def)
  then have item: "isListItem (m # ws @ rest)" by (simp add: isListItem_def)
  from ws(2) have "dropWhile (\<lambda>c. isSpace c \<or> isBullet c) (ws @ rest)
                   = dropWhile (\<lambda>c. isSpace c \<or> isBullet c) rest"
    by (simp add: dropWhile_append list_all_iff)
  also from rest have "\<dots> = rest" by (cases rest) auto
  finally have "listItemText (m # ws @ rest) = trim rest"
    using mb by (simp add: listItemText_def)
  with rest item show ?thesis by (simp add: trim_id)
qed

lemma digit_not_strip: "isDigit c \<Longrightarrow> \<not> isSpace c \<and> \<not> isBullet c"
  by (auto simp: isDigit_def isSpace_def isBullet_def word_le_nat_alt)

lemma lower_not_strip: "isLower c \<Longrightarrow> \<not> isSpace c \<and> \<not> isBullet c"
  by (auto simp: isLower_def isSpace_def isBullet_def word_le_nat_alt)

lemma numbered_lettered_marker_kept:
  assumes item: "numberedItem line \<or> letteredItem line" and t: "trim line = line"
  shows "isListItem line \<and> listItemText line = line"
proof -
  from item have ne: "line \<noteq> []"
    by (auto simp: numberedItem_def letteredItem_def plus_then_def)
  with t have "\<not> isSpace (hd line)" by (rule trim_fix_hd)
  with ne have dw: "dropWhile isSpace line = line" by (cases line) auto
  have "isDigit (hd line) \<or> isLower (hd line)"
  proof -
    { assume "numberedItem line"
      with dw obtain r where "plus_then isDigit line = Some r"
        by (auto simp: numberedItem_def split: option.splits)
      then have "isDigit (hd line)" by (simp add: plus_then_hd) }
    moreover
    { assume "letteredItem line"
      with dw have "isLower (hd line)"
        by (auto simp: letteredItem_def split: list.splits) }
    ultimately show ?thesis using item by blast
  qed
  then have "\<not> (isSpace (hd line) \<or> isBullet (hd line))"
    using digit_not_strip lower_not_strip by blast
  with ne have "dropWhile (\<lambda>c. isSpace c \<or> isBullet c) line = line" by (cases line) auto
  with t have "listItemText line = line" by (simp add: listItemText_def)
  with item show ?thesis by (simp add: isListItem_def)
qed

lemma dash_example:
  "convertTextToHTML (js ''- First point'') = Inr (js ''<ul><li>First point</li></ul>'')"
  by (simp add: eval_defs)

text \<open>
  C4, amended. A line that starts with \<open>-\<close> or \<open>*\<close> followed by whitespace is a list item
  and its stored text is what follows the marker and the whitespace (when that text does
  not itself start with a character of the stripped class). A trimmed line that is a list
  item by a numbered or a lettered marker keeps the marker in its stored text. The line
  \<open>- First point\<close> is stored as \<open>First point\<close>.
\<close>

theorem list_item_marker_stripping:
  "((m = 0x2D \<or> m = 0x2A) \<and> ws \<noteq> [] \<and> list_all isSpace ws \<and> rest \<noteq> []
      \<and> \<not> isSpace (hd rest) \<and> \<not> isBullet (hd rest) \<and> \<not> isSpace (last rest)
      \<longrightarrow> isListItem (m # ws @ rest) \<and> listItemText (m # ws @ rest) = rest)
   \<and> ((numberedItem line \<or> letteredItem line) \<and> trim line = line
      \<longrightarrow> isListItem line \<and> listItemText line = line)
   \<and> convertTextToHTML (js ''- First point'') = Inr (js ''<ul><li>First point</li></ul>'')"
  using bullet_marker_stripped [of m ws rest] numbered_lettered_marker_kept [of line] dash_example
  by blast

theorem list_item_marker_stripping_witness:
  "isListItem (0x2A # js '' '' @ js ''second point'')
   \<and> listItemText (0x2A # js '' '' @ js ''second point'') = js ''second point''
   \<and> letteredItem (js ''b. second point'') \<and> trim (js ''b. second point'') = js ''b. second point''
   \<and> isListItem (js ''b. second point'')
   \<and> listItemText (js ''b. second point'') = js ''b. second point''"
proof -
  have a: "js '' '' \<noteq> [] \<and> list_all isSpace (js '' '') \<and> js ''second point'' \<noteq> []
     \<and> \<not> isSpace (hd (js ''second point'')) \<and> \<not> isBullet (hd (js ''second point''))
     \<and> \<not> isSpace (last (js ''second point''))"
    by (simp add: eval_defs)
  have b: "letteredItem (js ''b. second point'') \<and> trim (js ''b. second point'') = js ''b. second point''"
    by (simp add: eval_defs)
  from a b list_item_marker_stripping [of "0x2A" "js '' ''" "js ''second point''" "js ''b. second point''"]
  show ?thesis by blast
qed

text \<open>
  C4, as stated, fails: \<open>1. first point\<close> is a list item by the digit rule and its stored
  text still starts with \<open>1.\<close>; and the line that starts with the bullet U+2022 is no list
  item at all, since the bullet class of the source holds U+201A, U+00C4 and U+00A2
  instead.
\<close>

theorem numbered_marker_not_stripped:
  "isListItem (js ''1. first point'')
   \<and> listItemText (js ''1. first point'') = js ''1. first point''
   \<and> convertTextToHTML (js ''1. first point'') = Inr (js ''<ul><li>1. first point</li></ul>'')
   \<and> \<not> isListItem ([0x2022] @ js '' First point'')
   \<and> convertTextToHTML ([0x2022] @ js '' First point'')
       = Inr (js ''<p>'' @ [0x2022] @ js '' First point </p>'')"
  by (simp add: eval_defs)

section \<open>Lines, blank lines and trimming\<close>

lemma split_nl_nonempty: "split_nl t \<noteq> []"
  by (induction t) (auto split: list.splits)

lemma split_nl_single: "LF \<notin> set l \<Longrightarrow> split_nl l = [l]"
  by (induction l) (auto split: list.splits)

lemma split_nl_no_LF: "l \<in> set (split_nl t) \<Longrightarrow> LF \<notin> set l"
  by (induction t arbitrary: l) (auto split: if_splits list.splits)

lemma split_nl_subset: "l \<in> set (split_nl t) \<Longrightarrow> set l \<subseteq> set t"
  by (induction t arbitrary: l) (fastforce split: if_splits list.splits)+

lemma split_nl_LF: "split_nl (a @ LF # b) = split_nl a @ split_nl b"
  using split_nl_nonempty by (induction a) (auto split: list.splits)

lemma split_nl_line: "LF \<notin> set l \<Longrightarrow> split_nl (l @ LF # t) = l # split_nl t"
  by (induction l) (auto split: list.splits)

lemma split_join:
  "ls \<noteq> [] \<Longrightarrow> \<forall>l\<in>set ls. LF \<notin> set l \<Longrightarrow> split_nl (join_nl ls) = ls"
  by (induction ls rule: join_nl.induct) (auto simp: split_nl_line split_nl_single)

lemma isSpace_LF: "isSpace LF"
  by (simp add: isSpace_def LF_def)

lemma blank_split:
  "(\<forall>c\<in>set t. isSpace c) \<longleftrightarrow> (\<forall>l\<in>set (split_nl t). \<forall>c\<in>set l. isSpace c)"
  using split_nl_nonempty
  by (induction t) (auto simp: isSpace_LF split: list.splits)

lemma blank_iff: "(t = [] \<or> trim t = []) \<longleftrightarrow> nonblank_lines t = []"
proof -
  have "(t = [] \<or> trim t = []) \<longleftrightarrow> (\<forall>c\<in>set t. isSpace c)"
    by (auto simp: trim_eq_Nil)
  also have "\<dots> \<longleftrightarrow> (\<forall>l\<in>set (split_nl t). trim l = [])"
    by (simp add: blank_split [of t] trim_eq_Nil)
  also have "\<dots> \<longleftrightarrow> nonblank_lines t = []"
    by (simp add: nonblank_lines_def filter_empty_conv)
  finally show ?thesis .
qed

lemma trim_ends:
  assumes "trim s \<noteq> []"
  shows "\<not> isSpace (hd (trim s)) \<and> \<not> isSpace (last (trim s))"
proof -
  let ?d = "dropWhile isSpace s"
  let ?e = "dropWhile isSpace (rev ?d)"
  from assms have e: "?e \<noteq> []" by (simp add: trim_def)
  have d: "?d \<noteq> []"
  proof
    assume "?d = []"
    then have "?e = []" by (simp del: dropWhile_eq_Nil_conv)
    with e show False by simp
  qed
  have t: "trim s = rev ?e" by (simp add: trim_def)
  from e have 1: "\<not> isSpace (hd ?e)" by (rule hd_dropWhile)
  have "?e = drop (length (takeWhile isSpace (rev ?d))) (rev ?d)"
    by (rule dropWhile_eq_drop)
  moreover from e have "length (takeWhile isSpace (rev ?d)) < length (rev ?d)"
    by (metis calculation drop_all not_le_imp_less)
  ultimately have "last ?e = last (rev ?d)"
    by (metis last_drop)
  then have "last ?e = hd ?d" by (simp add: last_rev)
  moreover from d have "\<not> isSpace (hd ?d)" by (rule hd_dropWhile)
  ultimately have 2: "\<not> isSpace (last ?e)" by simp
  from 1 2 t show ?thesis by (simp add: hd_rev last_rev)
qed

lemma trim_idem: "trim (trim s) = trim s"
proof (cases "trim s = []")
  case True
  moreover have "trim [] = []" by (simp add: trim_def)
  ultimately show ?thesis by simp
next
  case False
  with trim_ends [of s] show ?thesis by (simp add: trim_id)
qed

lemma trim_snoc_space: "isSpace w \<Longrightarrow> trim (l @ [w]) = trim l"
proof (cases "\<forall>c\<in>set l. isSpace c")
  case True
  assume "isSpace w"
  with True have "trim (l @ [w]) = []" by (simp add: trim_eq_Nil)
  moreover from True have "trim l = []" by (simp add: trim_eq_Nil)
  ultimately show ?thesis by simp
next
  case False
  assume w: "isSpace w"
  from False have "dropWhile isSpace (l @ [w]) = dropWhile isSpace l @ [w]"
    by auto
  with w show ?thesis by (simp add: trim_def)
qed

lemma set_trim: "set (trim s) \<subseteq> set s"
proof -
  have "set (trim s) \<subseteq> set (dropWhile isSpace s)"
    using set_dropWhileD [of _ isSpace "rev (dropWhile isSpace s)"] by (auto simp: trim_def)
  then show ?thesis using set_dropWhileD [of _ isSpace s] by auto
qed

lemma text_lines_LF: "text_lines (a @ LF # b) = text_lines a @ text_lines b"
  by (simp add: text_lines_def nonblank_lines_def split_nl_LF)

lemma text_lines_Nil: "text_lines [] = []"
  by (simp add: text_lines_def nonblank_lines_def trim_def)

lemma text_lines_single: "LF \<notin> set l \<Longrightarrow> trim l \<noteq> [] \<Longrightarrow> text_lines l = [trim l]"
  by (simp add: text_lines_def nonblank_lines_def split_nl_single)

text \<open>The loop reads its lines only through \<open>trim\<close>.\<close>

lemma at_map: "at (map f xs) i = (case at xs i of Inl e \<Rightarrow> Inl e | Inr x \<Rightarrow> Inr (f x))"
  by (simp add: at_def)

lemma isHeader_trimmed: "isHeader line (map trim ls) i = isHeader line ls i"
  by (simp add: isHeader_def at_map trim_idem split: sum.splits)

lemma loop_body_trimmed: "loop_body (map trim ls) i s = loop_body ls i s"
  by (simp add: loop_body_def at_map isHeader_trimmed trim_idem Let_def split: sum.splits)

lemma loop_trimmed: "loop (map trim ls) is s = loop ls is s"
  by (induction "is" arbitrary: s) (simp_all add: loop_body_trimmed split: sum.splits)

lemma loop_append:
  "loop ls (xs @ ys) s = (case loop ls xs s of Inl e \<Rightarrow> Inl e | Inr s' \<Rightarrow> loop ls ys s')"
  by (induction xs arbitrary: s) (simp_all split: sum.splits)

lemma convert_text_lines:
  "convertTextToHTML t =
     (if text_lines t = [] then Inr (js ''<p>No text content found in the PDF.</p>'')
      else (case loop (text_lines t) [0..<length (text_lines t)] init_state of
              Inl e \<Rightarrow> Inl e
            | Inr s \<Rightarrow> Inr (finish s)))"
  using blank_iff [of t]
  by (simp add: convertTextToHTML_def text_lines_def loop_trimmed Let_def)

lemma convert_cong: "text_lines t1 = text_lines t2 \<Longrightarrow> convertTextToHTML t1 = convertTextToHTML t2"
  by (simp add: convert_text_lines)

lemma join_nl_Cons: "join_nl ((c # l) # ls) = c # join_nl (l # ls)"
  by (cases ls) simp_all

lemma join_split: "join_nl (split_nl t) = t"
proof (induction t)
  case Nil
  show ?case by simp
next
  case (Cons c cs)
  obtain l ls where "split_nl cs = l # ls"
    using split_nl_nonempty [of cs] by (cases "split_nl cs") auto
  with Cons show ?case by (simp add: join_nl_Cons)
qed

lemma nonblank_join:
  assumes "\<forall>l\<in>set ls. LF \<notin> set l"
  shows "nonblank_lines (join_nl ls) = filter (\<lambda>l. trim l \<noteq> []) ls"
proof (cases "ls = []")
  case True
  then show ?thesis by (simp add: nonblank_lines_def trim_def)
next
  case False
  with assms show ?thesis by (simp add: nonblank_lines_def split_join)
qed

lemma density_example:
  "convertTextToHTML (js ''intro'' @ [LF] @ js ''  '' @ [LF] @ js ''this is the body'')
     = Inr (js ''<h3>intro</h3><p>this is the body </p>'')"
  by (simp add: eval_defs)

text \<open>
  C10. The result does not change when a blank (whitespace-only) line is inserted into or
  deleted from the text, wherever it stands, and it is the result for the text with all
  its blank lines deleted: blank lines are filtered out before the loop, so \<open>isHeader\<close>
  compares a line with the next non-blank line and a blank line never ends a block. Every
  text is the join of its lines, so this covers every text.
\<close>

theorem blank_lines_do_not_matter:
  assumes "list_all (\<lambda>l. LF \<notin> set l) (xs @ b # ys)" and "trim b = []"
  shows "convertTextToHTML (join_nl (xs @ b # ys)) = convertTextToHTML (join_nl (xs @ ys))
         \<and> convertTextToHTML (join_nl (nonblank_lines t)) = convertTextToHTML t
         \<and> join_nl (split_nl t) = t"
proof -
  from assms(1) have all: "\<forall>l\<in>set (xs @ b # ys). LF \<notin> set l"
    by (simp add: list_all_iff)
  then have "\<forall>l\<in>set (xs @ ys). LF \<notin> set l" by auto
  with all assms(2) have "nonblank_lines (join_nl (xs @ b # ys)) = nonblank_lines (join_nl (xs @ ys))"
    by (simp add: nonblank_join)
  then have a: "convertTextToHTML (join_nl (xs @ b # ys)) = convertTextToHTML (join_nl (xs @ ys))"
    by (intro convert_cong) (simp add: text_lines_def)
  have "\<forall>l\<in>set (nonblank_lines t). LF \<notin> set l"
    by (auto simp: nonblank_lines_def split_nl_no_LF)
  then have "nonblank_lines (join_nl (nonblank_lines t)) = nonblank_lines t"
    by (simp add: nonblank_join) (simp add: nonblank_lines_def)
  then have "convertTextToHTML (join_nl (nonblank_lines t)) = convertTextToHTML t"
    by (intro convert_cong) (simp add: text_lines_def)
  with a show ?thesis by (simp add: join_split)
qed

theorem blank_lines_do_not_matter_witness:
  "list_all (\<lambda>l. LF \<notin> set l) ([js ''intro''] @ js ''  '' # [js ''this is the body''])
   \<and> trim (js ''  '') = []
   \<and> convertTextToHTML (js ''intro'' @ [LF] @ js ''  '' @ [LF] @ js ''this is the body'')
       = convertTextToHTML (js ''intro'' @ [LF] @ js ''this is the body'')
   \<and> convertTextToHTML (js ''intro'' @ [LF] @ js ''  '' @ [LF] @ js ''this is the body'')
       = Inr (js ''<h3>intro</h3><p>this is the body </p>'')"
proof -
  have h1: "list_all (\<lambda>l. LF \<notin> set l) ([js ''intro''] @ js ''  '' # [js ''this is the body''])"
    by (simp add: js_def LF_def)
  have h2: "trim (js ''  '') = []"
    by (simp add: trim_eq_Nil js_def isSpace_def)
  from blank_lines_do_not_matter [OF h1 h2] h1 h2 density_example
  show ?thesis by simp
qed

section \<open>The round trip\<close>

text \<open>
  C9, as stated, fails. The list item \<open>- item\<close> loses its marker in the markup and comes
  back as a paragraph; the two paragraph lines \<open>chapter\<close> and \<open>1 begins\<close> are merged into
  one line that matches the \<open>Chapter\<close> pattern and comes back as a heading; and the
  fallback paragraph of the empty text comes back as an ordinary paragraph.
\<close>

theorem round_trip_loses_blocks:
  "noEscapes (js ''- item'')
   \<and> convertTextToHTML (js ''- item'') = Inr (js ''<ul><li>item</li></ul>'')
   \<and> roundTrip (js ''- item'') = Inr (js ''<p>item </p>'')
   \<and> noEscapes (js ''chapter'' @ [LF] @ js ''1 begins'')
   \<and> convertTextToHTML (js ''chapter'' @ [LF] @ js ''1 begins'') = Inr (js ''<p>chapter 1 begins </p>'')
   \<and> roundTrip (js ''chapter'' @ [LF] @ js ''1 begins'') = Inr (js ''<h1>chapter 1 begins</h1>'')
   \<and> noEscapes []
   \<and> convertTextToHTML [] = Inr (js ''<p>No text content found in the PDF.</p>'')
   \<and> roundTrip [] = Inr (js ''<p>No text content found in the PDF. </p>'')"
  by (simp add: eval_defs)

lemma strip_append: "strip_from b (x @ y) = strip_from b x @ strip_from (in_tag b x) y"
  by (induction x arbitrary: b) auto

lemma in_tag_append: "in_tag b (x @ y) = in_tag (in_tag b x) y"
  by (induction x arbitrary: b) auto

lemma strip_plain: "noEscapes x \<Longrightarrow> strip_from False x = x \<and> in_tag False x = False"
  by (induction x) (auto simp: noEscapes_def needsEscape_def)

lemma getHeaderLevel_range: "getHeaderLevel l = 1 \<or> getHeaderLevel l = 2 \<or> getHeaderLevel l = 3"
  by (simp add: getHeaderLevel_def)

lemma strip_open_h:
  "n = 1 \<or> n = 2 \<or> n = 3 \<Longrightarrow>
   strip_from False (js ''<h'' @ showLevel n @ js ''>'') = [LF]
   \<and> in_tag False (js ''<h'' @ showLevel n @ js ''>'') = False"
  by (auto simp: js_def showLevel_def)

lemma strip_close_h:
  "n = 1 \<or> n = 2 \<or> n = 3 \<Longrightarrow>
   strip_from False (js ''</h'' @ showLevel n @ js ''>'') = [LF]
   \<and> in_tag False (js ''</h'' @ showLevel n @ js ''>'') = False"
  by (auto simp: js_def showLevel_def)

lemma strip_p:
  "strip_from False (js ''<p>'') = [LF] \<and> in_tag False (js ''<p>'') = False
   \<and> strip_from False (js ''</p>'') = [LF] \<and> in_tag False (js ''</p>'') = False"
  by (simp add: js_def)

lemma js_space: "js '' '' = [0x20]"
  by (simp add: js_def)

lemma noEscapes_space: "noEscapes [0x20]"
  by (simp add: noEscapes_def needsEscape_def)

lemma escapeHtml_noEscapes: "noEscapes l \<Longrightarrow> escapeHtml l = l"
  by (simp add: noEscapes_def escapeHtml_plain)

lemma html_emitHeader:
  "html (emitHeader l s) =
     html s @ (if inParagraph s then js ''</p>'' else []) @ (if inList s then js ''</ul>'' else [])
       @ (js ''<h'' @ showLevel (getHeaderLevel l) @ js ''>'') @ escapeHtml l
       @ (js ''</h'' @ showLevel (getHeaderLevel l) @ js ''>'')"
  by (simp add: emitHeader_def closeList_def closeParagraph_def Let_def)

lemma step_heading:
  assumes i: "i < length ls" and h: "heading_at ls i"
    and s: "\<not> inList s" "\<not> in_tag False (html s)"
    and l: "noEscapes (trim (ls ! i))" "LF \<notin> set (trim (ls ! i))" "trim (ls ! i) \<noteq> []"
  shows "\<exists>s'. loop_body ls i s = Inr s' \<and> \<not> inList s' \<and> \<not> inParagraph s'
            \<and> \<not> in_tag False (html s')
            \<and> text_lines (stripMarkup (html s')) = text_lines (stripMarkup (html s)) @ [trim (ls ! i)]"
proof -
  let ?l = "trim (ls ! i)"
  let ?X = "strip_from False (html s)"
  have body: "loop_body ls i s = Inr (emitHeader ?l s)"
    using i h l(3) by (simp add: loop_body_def at_def Let_def heading_at_def)
  note lv = getHeaderLevel_range [of ?l]
  note o = strip_open_h [OF lv] and c = strip_close_h [OF lv] and pl = strip_plain [OF l(1)]
  have tag: "\<not> in_tag False (html (emitHeader ?l s))"
    using s o c pl strip_p
    by (simp add: html_emitHeader in_tag_append escapeHtml_noEscapes [OF l(1)])
  have st: "stripMarkup (html (emitHeader ?l s))
            = ?X @ (if inParagraph s then [LF] else []) @ LF # ?l @ [LF]"
    using s o c pl strip_p
    by (simp add: stripMarkup_def html_emitHeader strip_append in_tag_append
          escapeHtml_noEscapes [OF l(1)])
  have tl: "text_lines (?X @ (if inParagraph s then [LF] else []) @ LF # ?l @ [LF])
            = text_lines ?X @ [?l]"
  proof -
    have "text_lines (?l @ LF # []) = [?l]"
      using l by (simp only: text_lines_LF text_lines_Nil) (simp add: text_lines_single trim_idem)
    then have a: "text_lines (?X @ LF # ?l @ [LF]) = text_lines ?X @ [?l]"
      by (simp add: text_lines_LF)
    have "text_lines (?X @ LF # (LF # ?l @ [LF])) = text_lines ?X @ text_lines (LF # ?l @ [LF])"
      by (rule text_lines_LF)
    moreover have "text_lines ([] @ LF # (?l @ [LF])) = text_lines [] @ text_lines (?l @ [LF])"
      by (rule text_lines_LF)
    ultimately have b: "text_lines (?X @ [LF] @ LF # ?l @ [LF]) = text_lines ?X @ [?l]"
      using \<open>text_lines (?l @ LF # []) = [?l]\<close> by (simp add: text_lines_Nil)
    from a b show ?thesis by simp
  qed
  from body tag st tl header_branch_closes_both [of ?l s] show ?thesis
    by (simp add: stripMarkup_def)
qed

lemma step_paragraph:
  assumes i: "i < length ls" and h: "paragraph_at ls i"
    and s: "\<not> inList s" "\<not> inParagraph s" "\<not> in_tag False (html s)"
    and l: "noEscapes (trim (ls ! i))" "LF \<notin> set (trim (ls ! i))" "trim (ls ! i) \<noteq> []"
  shows "\<exists>s'. loop_body ls i s = Inr s' \<and> \<not> inList s' \<and> inParagraph s'
            \<and> \<not> in_tag False (html s')
            \<and> text_lines (stripMarkup (html s')) = text_lines (stripMarkup (html s)) @ [trim (ls ! i)]"
proof -
  let ?l = "trim (ls ! i)"
  let ?X = "strip_from False (html s)"
  have body: "loop_body ls i s = Inr (emitParagraph ?l s)"
    using i h l(3) by (simp add: loop_body_def at_def Let_def paragraph_at_def)
  have hs: "html (emitParagraph ?l s) = html s @ js ''<p>'' @ ?l @ [0x20]"
    using s by (simp add: emitParagraph_def Let_def escapeHtml_noEscapes [OF l(1)] js_space)
  note pl = strip_plain [OF l(1)] and sp = strip_plain [OF noEscapes_space]
  have tag: "\<not> in_tag False (html (emitParagraph ?l s))"
    using s pl sp strip_p by (simp add: hs in_tag_append)
  have st: "stripMarkup (html (emitParagraph ?l s)) = ?X @ LF # (?l @ [0x20])"
    using s pl sp strip_p by (simp add: stripMarkup_def hs strip_append in_tag_append)
  have "LF \<notin> set (?l @ [0x20])" using l(2) by (simp add: LF_def)
  moreover have "trim (?l @ [0x20]) = ?l"
    by (simp add: trim_snoc_space isSpace_def trim_idem)
  ultimately have "text_lines (?l @ [0x20]) = [?l]"
    using l(3) by (simp add: text_lines_single)
  then have tl: "text_lines (?X @ LF # (?l @ [0x20])) = text_lines ?X @ [?l]"
    by (simp add: text_lines_LF)
  from body tag st tl s show ?thesis
    by (simp add: stripMarkup_def emitParagraph_def Let_def)
qed

lemma single_line_blocks_at:
  "single_line_blocks ls \<Longrightarrow> i < length ls \<Longrightarrow>
   heading_at ls i \<or> (paragraph_at ls i \<and> (i + 1 < length ls \<longrightarrow> heading_at ls (i + 1)))"
  by (auto simp: single_line_blocks_def list_all_iff split: if_splits)

lemma heading_not_paragraph: "heading_at ls i \<Longrightarrow> \<not> paragraph_at ls i"
  by (simp add: heading_at_def paragraph_at_def)

lemma loop_single_line_blocks:
  assumes slb: "single_line_blocks ls"
    and lines: "\<forall>l\<in>set ls. noEscapes (trim l) \<and> LF \<notin> set (trim l) \<and> trim l \<noteq> []"
  shows "k \<le> length ls \<Longrightarrow>
     \<exists>s. loop ls [0..<k] init_state = Inr s \<and> \<not> inList s \<and> \<not> in_tag False (html s)
        \<and> text_lines (stripMarkup (html s)) = map trim (take k ls)
        \<and> (inParagraph s \<longrightarrow> 0 < k \<and> \<not> heading_at ls (k - 1))"
proof (induction k)
  case 0
  show ?case
    by (simp add: init_state_def stripMarkup_def text_lines_Nil)
next
  case (Suc k)
  then have k: "k < length ls" by simp
  with Suc obtain s where s: "loop ls [0..<k] init_state = Inr s" "\<not> inList s"
      "\<not> in_tag False (html s)" "text_lines (stripMarkup (html s)) = map trim (take k ls)"
      "inParagraph s \<longrightarrow> 0 < k \<and> \<not> heading_at ls (k - 1)"
    by auto
  from k lines have l: "noEscapes (trim (ls ! k))" "LF \<notin> set (trim (ls ! k))" "trim (ls ! k) \<noteq> []"
    by simp_all
  have tk: "map trim (take (Suc k) ls) = map trim (take k ls) @ [trim (ls ! k)]"
    using k by (simp add: take_Suc_conv_app_nth)
  show ?case
  proof (cases "heading_at ls k")
    case True
    from step_heading [OF k True s(2) s(3) l] obtain s' where
      "loop_body ls k s = Inr s'" "\<not> inList s'" "\<not> inParagraph s'" "\<not> in_tag False (html s')"
      "text_lines (stripMarkup (html s')) = text_lines (stripMarkup (html s)) @ [trim (ls ! k)]"
      by blast
    with s(1) s(4) tk show ?thesis by (simp add: loop_append)
  next
    case False
    with single_line_blocks_at [OF slb k] have par: "paragraph_at ls k" by simp
    have np: "\<not> inParagraph s"
    proof
      assume ip: "inParagraph s"
      with s(5) have "0 < k" and nh: "\<not> heading_at ls (k - 1)" by simp_all
      then have "k - 1 < length ls" and "k - 1 + 1 = k" using k by simp_all
      with single_line_blocks_at [OF slb, of "k - 1"] nh k have "heading_at ls k" by simp
      with False show False by simp
    qed
    from step_paragraph [OF k par s(2) np s(3) l] obtain s' where
      "loop_body ls k s = Inr s'" "\<not> inList s'" "inParagraph s'" "\<not> in_tag False (html s')"
      "text_lines (stripMarkup (html s')) = text_lines (stripMarkup (html s)) @ [trim (ls ! k)]"
      by blast
    with s(1) s(4) tk False show ?thesis by (simp add: loop_append)
  qed
qed

lemma nonblank_lines_props:
  assumes "noEscapes t" and "l \<in> set (nonblank_lines t)"
  shows "noEscapes (trim l) \<and> LF \<notin> set (trim l) \<and> trim l \<noteq> []"
proof -
  from assms(2) have l: "l \<in> set (split_nl t)" "trim l \<noteq> []"
    by (simp_all add: nonblank_lines_def)
  then have "set (trim l) \<subseteq> set t" "LF \<notin> set (trim l)"
    using set_trim [of l] split_nl_subset [of l t] split_nl_no_LF [of l t] by auto
  with assms(1) l(2) show ?thesis
    by (auto simp: noEscapes_def list_all_iff)
qed

text \<open>
  C9, amended. For a text that is not blank, holds none of the characters that need
  escaping, and in which every non-blank line is a heading or a paragraph line followed by
  a heading or by the end of the text (so no line is a list item and no two paragraph
  lines are merged), converting, stripping the tags and converting again gives the same
  markup as converting once.
\<close>

theorem round_trip_single_line_blocks:
  assumes ne: "noEscapes t" and nb: "nonblank_lines t \<noteq> []"
    and slb: "single_line_blocks (nonblank_lines t)"
  shows "roundTrip t = convertTextToHTML t"
proof -
  let ?ls = "nonblank_lines t"
  have lines: "\<forall>l\<in>set ?ls. noEscapes (trim l) \<and> LF \<notin> set (trim l) \<and> trim l \<noteq> []"
    using nonblank_lines_props [OF ne] by blast
  from loop_single_line_blocks [OF slb lines, of "length ?ls"] obtain s where
    s: "loop ?ls [0..<length ?ls] init_state = Inr s" "\<not> inList s" "\<not> in_tag False (html s)"
       "text_lines (stripMarkup (html s)) = map trim ?ls"
    by auto
  from nb have "\<not> (t = [] \<or> trim t = [])" by (simp add: blank_iff)
  with s(1) have out: "convertTextToHTML t = Inr (finish s)"
    by (simp add: convertTextToHTML_def Let_def)
  have fin: "finish s = html s @ (if inParagraph s then js ''</p>'' else [])"
  proof (cases "html s = [] \<and> \<not> inParagraph s")
    case True
    with s(4) nb show ?thesis by (simp add: stripMarkup_def text_lines_Nil)
  next
    case False
    with s(2) show ?thesis by (auto simp: finish_def Let_def js_def)
  qed
  have "text_lines (stripMarkup (finish s)) = text_lines (stripMarkup (html s))"
  proof (cases "inParagraph s")
    case True
    with fin s(3) strip_p have "stripMarkup (finish s) = stripMarkup (html s) @ LF # []"
      by (simp add: stripMarkup_def strip_append)
    then show ?thesis by (simp only: text_lines_LF text_lines_Nil) simp
  next
    case False
    with fin show ?thesis by simp
  qed
  with s(4) have "text_lines (stripMarkup (finish s)) = text_lines t"
    by (simp add: text_lines_def)
  then have "convertTextToHTML (stripMarkup (finish s)) = convertTextToHTML t"
    by (rule convert_cong)
  with out show ?thesis by (simp add: roundTrip_def)
qed

theorem round_trip_single_line_blocks_witness:
  "noEscapes (js ''CHAPTER ONE'' @ [LF] @ js ''some plain words'')
   \<and> nonblank_lines (js ''CHAPTER ONE'' @ [LF] @ js ''some plain words'') \<noteq> []
   \<and> single_line_blocks (nonblank_lines (js ''CHAPTER ONE'' @ [LF] @ js ''some plain words''))
   \<and> roundTrip (js ''CHAPTER ONE'' @ [LF] @ js ''some plain words'')
       = convertTextToHTML (js ''CHAPTER ONE'' @ [LF] @ js ''some plain words'')
   \<and> convertTextToHTML (js ''CHAPTER ONE'' @ [LF] @ js ''some plain words'')
       = Inr (js ''<h1>CHAPTER ONE</h1><p>some plain words </p>'')"
proof -
  let ?t = "js ''CHAPTER ONE'' @ [LF] @ js ''some plain words''"
  have 1: "noEscapes ?t" by (simp add: eval_defs)
  have 2: "nonblank_lines ?t \<noteq> []" by (simp add: eval_defs)
  have 3: "single_line_blocks (nonblank_lines ?t)" by (simp add: eval_defs)
  have 4: "convertTextToHTML ?t = Inr (js ''<h1>CHAPTER ONE</h1><p>some plain words </p>'')"
    by (simp add: eval_defs)
  from 1 2 3 4 round_trip_single_line_blocks [OF 1 2 3] show ?thesis by blast
qed

end
